theory Spec2Isabelle
  imports Main "HOL-Library.Word"
begin

section \<open>The check.bin codec: data model\<close>

text \<open>
  The two scripts \<^verbatim>\<open>pack_checkbin.py\<close> and \<^verbatim>\<open>extract_checkbin.py\<close> are embedded
  as pure functions. A Python \<^verbatim>\<open>bytes\<close> object is a list of 8-bit words, a Python
  \<^verbatim>\<open>str\<close> is the list of its Unicode code points, a Python \<^verbatim>\<open>int\<close> is an
  \<^typ>\<open>int\<close>, and every \<^verbatim>\<open>raise\<close> is a value on the left of a sum.
\<close>

type_synonym byte = "8 word"
type_synonym str = "nat list"

text \<open>
  One constructor for each way the code can raise:
  \<^item> \<open>TruncatedHeader\<close>: \<^verbatim>\<open>ValueError("File too small to contain header")\<close>;
  \<^item> \<open>SizeMismatch actual expected\<close>:
    \<^verbatim>\<open>ValueError(f"Unexpected file size: {len(data)} bytes (expected {expected_size})")\<close>;
  \<^item> \<open>TrailerMismatch actual expected\<close>:
    \<^verbatim>\<open>ValueError(f"Unexpected trailer size: {len(trailer)} bytes (expected {count * 4})")\<close>;
  \<^item> \<open>EntryTooLong length entry\<close>:
    \<^verbatim>\<open>ValueError(f"Entry too long ({len(encoded)} bytes): {entry}")\<close>;
  \<^item> \<open>MetadataCountMismatch got expected\<close>:
    \<^verbatim>\<open>ValueError(f"Metadata count ({len(metadata)}) does not match entries ({len(entries)})")\<close>;
  \<^item> \<open>EmptyInput\<close>: \<^verbatim>\<open>ValueError("No entries found to pack")\<close>;
  \<^item> \<open>OverflowError\<close>: raised by \<^verbatim>\<open>int.to_bytes(4, "little")\<close> on a negative or too large value;
  \<^item> \<open>UnicodeEncodeError\<close>: raised by \<^verbatim>\<open>str.encode("utf-8")\<close> on a surrogate code point.
\<close>

datatype error =
    TruncatedHeader
  | SizeMismatch nat nat
  | TrailerMismatch nat nat
  | EntryTooLong nat str
  | MetadataCountMismatch nat nat
  | EmptyInput
  | OverflowError
  | UnicodeEncodeError

record header_dict =
  magic :: int
  version :: int
  flags :: int
  count :: int

record payload =
  header :: header_dict
  entries :: "str list"
  metadata :: "int list"

definition ENTRY_SIZE :: nat where
  "ENTRY_SIZE = 260"

definition DEFAULT_HEADER :: "int \<times> int \<times> int" where
  "DEFAULT_HEADER = (2008, 1, 7)"

text \<open>A string literal of ASCII characters as a Python \<^verbatim>\<open>str\<close>.\<close>

definition str_of :: "string \<Rightarrow> str" where
  "str_of s = map of_char s"

section \<open>Python built-ins used by the codec\<close>

subsection \<open>Integers and bytes\<close>

text \<open>\<^verbatim>\<open>int.from_bytes(bs, "little")\<close>: the unsigned little-endian value.\<close>

fun from_bytes_le :: "byte list \<Rightarrow> nat" where
  "from_bytes_le [] = 0"
| "from_bytes_le (b # bs) = unat b + 256 * from_bytes_le bs"

text \<open>The values that fit an unsigned 32-bit field.\<close>

definition u32 :: "int \<Rightarrow> bool" where
  "u32 v \<longleftrightarrow> 0 \<le> v \<and> v < 2 ^ 32"

text \<open>
  \<^verbatim>\<open>value.to_bytes(4, "little")\<close>: four bytes, least significant first, and
  \<^verbatim>\<open>OverflowError\<close> for a negative value or one that needs more than four bytes.
\<close>

definition to_bytes4 :: "int \<Rightarrow> error + byte list" where
  "to_bytes4 v =
     (if v < 0 \<or> 2 ^ 32 \<le> v then Inl OverflowError
      else Inr [word_of_int v, word_of_int (v div 2 ^ 8),
                word_of_int (v div 2 ^ 16), word_of_int (v div 2 ^ 24)])"

text \<open>
  \<^verbatim>\<open>b"".join(value.to_bytes(4, "little") for value in values)\<close>: the values are
  converted in order and the first failing conversion raises.
\<close>

fun join_to_bytes :: "int list \<Rightarrow> error + byte list" where
  "join_to_bytes [] = Inr []"
| "join_to_bytes (v # vs) =
     (case to_bytes4 v of
        Inl e \<Rightarrow> Inl e
      | Inr b \<Rightarrow> (case join_to_bytes vs of Inl e \<Rightarrow> Inl e | Inr r \<Rightarrow> Inr (b @ r)))"

text \<open>\<^verbatim>\<open>encoded.ljust(width, b"\x00")\<close>.\<close>

definition ljust :: "byte list \<Rightarrow> nat \<Rightarrow> byte list" where
  "ljust bs width = bs @ replicate (width - length bs) 0"

text \<open>\<^verbatim>\<open>chunk.split(b"\x00", 1)[0]\<close>: the bytes before the first zero byte.\<close>

definition split_nul :: "byte list \<Rightarrow> byte list" where
  "split_nul chunk = takeWhile (\<lambda>b. b \<noteq> 0) chunk"

text \<open>\<^verbatim>\<open>range(0, n, 4)\<close>.\<close>

definition range4 :: "nat \<Rightarrow> nat list" where
  "range4 n = map (\<lambda>k. 4 * k) [0..<(n + 3) div 4]"

subsection \<open>UTF-8\<close>

text \<open>
  \<^verbatim>\<open>str.encode("utf-8")\<close> with the default strict error handling: one to four bytes
  for each code point, and \<^verbatim>\<open>UnicodeEncodeError\<close> for a surrogate.
\<close>

definition is_surrogate :: "nat \<Rightarrow> bool" where
  "is_surrogate c \<longleftrightarrow> 0xD800 \<le> c \<and> c \<le> 0xDFFF"

definition encode_cp :: "nat \<Rightarrow> nat list" where
  "encode_cp c =
     (if c < 0x80 then [c]
      else if c < 0x800 then [0xC0 + c div 64, 0x80 + c mod 64]
      else if c < 0x10000 then
        [0xE0 + c div 4096, 0x80 + (c div 64) mod 64, 0x80 + c mod 64]
      else
        [0xF0 + c div 262144, 0x80 + (c div 4096) mod 64,
         0x80 + (c div 64) mod 64, 0x80 + c mod 64])"

fun utf8_encode_nat :: "str \<Rightarrow> error + nat list" where
  "utf8_encode_nat [] = Inr []"
| "utf8_encode_nat (c # cs) =
     (if is_surrogate c then Inl UnicodeEncodeError
      else (case utf8_encode_nat cs of
              Inl e \<Rightarrow> Inl e
            | Inr r \<Rightarrow> Inr (encode_cp c @ r)))"

definition utf8_encode :: "str \<Rightarrow> error + byte list" where
  "utf8_encode s =
     (case utf8_encode_nat s of Inl e \<Rightarrow> Inl e | Inr bs \<Rightarrow> Inr (map of_nat bs))"

text \<open>A code point of a Python string is at most \<^verbatim>\<open>0x10FFFF\<close>.\<close>

definition valid_str :: "str \<Rightarrow> bool" where
  "valid_str s \<longleftrightarrow> list_all (\<lambda>c. c < 0x110000) s"

text \<open>
  \<^verbatim>\<open>bytes.decode("utf-8", errors="replace")\<close>. The decoder reads one sequence at a
  time. A byte that cannot start a sequence, and each maximal prefix of a sequence that
  is cut short by a wrong byte or by the end of the data, becomes one replacement
  character \<^verbatim>\<open>U+FFFD\<close>; decoding goes on at the byte after that prefix. The second
  byte of a three-byte or four-byte sequence is checked against the lead byte, so that
  overlong forms, surrogates and code points beyond \<^verbatim>\<open>0x10FFFF\<close> are refused.
\<close>

definition REPLACEMENT :: nat where
  "REPLACEMENT = 0xFFFD"

definition is_cont :: "nat \<Rightarrow> bool" where
  "is_cont b \<longleftrightarrow> 0x80 \<le> b \<and> b < 0xC0"

fun utf8_decode_nat :: "nat list \<Rightarrow> str" where
  "utf8_decode_nat [] = []"
| "utf8_decode_nat (b # bs) =
     (if b < 0x80 then b # utf8_decode_nat bs
      else if b < 0xC2 then REPLACEMENT # utf8_decode_nat bs
      else if b < 0xE0 then
        (case bs of
           [] \<Rightarrow> [REPLACEMENT]
         | b2 # r2 \<Rightarrow>
             if \<not> is_cont b2 then REPLACEMENT # utf8_decode_nat bs
             else ((b - 0xC0) * 64 + (b2 - 0x80)) # utf8_decode_nat r2)
      else if b < 0xF0 then
        (case bs of
           [] \<Rightarrow> [REPLACEMENT]
         | b2 # r2 \<Rightarrow>
             if \<not> is_cont b2 \<or> (b = 0xE0 \<and> b2 < 0xA0) \<or> (b = 0xED \<and> 0xA0 \<le> b2)
             then REPLACEMENT # utf8_decode_nat bs
             else (case r2 of
                     [] \<Rightarrow> [REPLACEMENT]
                   | b3 # r3 \<Rightarrow>
                       if \<not> is_cont b3 then REPLACEMENT # utf8_decode_nat r2
                       else ((b - 0xE0) * 4096 + (b2 - 0x80) * 64 + (b3 - 0x80))
                              # utf8_decode_nat r3))
      else if b < 0xF5 then
        (case bs of
           [] \<Rightarrow> [REPLACEMENT]
         | b2 # r2 \<Rightarrow>
             if \<not> is_cont b2 \<or> (b = 0xF0 \<and> b2 < 0x90) \<or> (b = 0xF4 \<and> 0x90 \<le> b2)
             then REPLACEMENT # utf8_decode_nat bs
             else (case r2 of
                     [] \<Rightarrow> [REPLACEMENT]
                   | b3 # r3 \<Rightarrow>
                       if \<not> is_cont b3 then REPLACEMENT # utf8_decode_nat r2
                       else (case r3 of
                               [] \<Rightarrow> [REPLACEMENT]
                             | b4 # r4 \<Rightarrow>
                                 if \<not> is_cont b4 then REPLACEMENT # utf8_decode_nat r3
                                 else ((b - 0xF0) * 262144 + (b2 - 0x80) * 4096
                                         + (b3 - 0x80) * 64 + (b4 - 0x80))
                                        # utf8_decode_nat r4)))
      else REPLACEMENT # utf8_decode_nat bs)"

definition utf8_decode_replace :: "byte list \<Rightarrow> str" where
  "utf8_decode_replace bs = utf8_decode_nat (map unat bs)"

section \<open>\<^verbatim>\<open>extract_checkbin.py\<close>\<close>

text \<open>
  \<^verbatim>\<open>parse_entries(data)\<close>. A slice \<^verbatim>\<open>data[a:b]\<close> is \<open>take (b - a) (drop a data)\<close>:
  both stop at the end of the data, as the slice does.
\<close>

definition parse_entries :: "byte list \<Rightarrow> error + payload" where
  "parse_entries data =
     (if length data < 16 then Inl TruncatedHeader
      else
        let hdr = map (\<lambda>i. from_bytes_le (take 4 (drop i data))) [0, 4, 8, 12];
            cnt = hdr ! 3;
            expected_size = 16 + cnt * ENTRY_SIZE + cnt * 4
        in if length data \<noteq> expected_size
           then Inl (SizeMismatch (length data) expected_size)
           else
             let ents = map (\<lambda>idx.
                              let start = 16 + idx * ENTRY_SIZE;
                                  chunk = take ENTRY_SIZE (drop start data)
                              in utf8_decode_replace (split_nul chunk)) [0..<cnt];
                 trailer_start = 16 + cnt * ENTRY_SIZE;
                 trailer = drop trailer_start data
             in if length trailer \<noteq> cnt * 4
                then Inl (TrailerMismatch (length trailer) (cnt * 4))
                else
                  let meta = map (\<lambda>i. from_bytes_le (take 4 (drop i trailer)))
                                 (range4 (length trailer))
                  in Inr \<lparr>header = \<lparr>magic = int (hdr ! 0), version = int (hdr ! 1),
                                      flags = int (hdr ! 2), count = int (hdr ! 3)\<rparr>,
                          entries = ents,
                          metadata = map int meta\<rparr>)"

section \<open>\<^verbatim>\<open>pack_checkbin.py\<close>\<close>

text \<open>
  The loop of \<^verbatim>\<open>pack_entries\<close> over the entries, with the \<^verbatim>\<open>bytearray\<close> it
  extends as an accumulator.
\<close>

fun pack_body :: "byte list \<Rightarrow> str list \<Rightarrow> error + byte list" where
  "pack_body body [] = Inr body"
| "pack_body body (entry # rest) =
     (case utf8_encode entry of
        Inl e \<Rightarrow> Inl e
      | Inr encoded \<Rightarrow>
          if ENTRY_SIZE < length encoded then Inl (EntryTooLong (length encoded) entry)
          else pack_body (body @ ljust encoded ENTRY_SIZE) rest)"

text \<open>\<^verbatim>\<open>pack_entries(entries, header, metadata)\<close>; \<^verbatim>\<open>None\<close> is \<open>None\<close>.\<close>

definition pack_entries ::
  "str list \<Rightarrow> int \<times> int \<times> int \<Rightarrow> int list option \<Rightarrow> error + byte list" where
  "pack_entries ents hdr meta =
     (case hdr of (h0, h1, h2) \<Rightarrow>
        (case join_to_bytes [h0, h1, h2] of
           Inl e \<Rightarrow> Inl e
         | Inr hb \<Rightarrow>
             (case to_bytes4 (int (length ents)) of
                Inl e \<Rightarrow> Inl e
              | Inr cb \<Rightarrow>
                  let header_bytes = hb @ cb in
                  (case pack_body [] ents of
                     Inl e \<Rightarrow> Inl e
                   | Inr body \<Rightarrow>
                       let md = (case meta of
                                   None \<Rightarrow> replicate (length ents) 0
                                 | Some m \<Rightarrow> m)
                       in if length md \<noteq> length ents
                          then Inl (MetadataCountMismatch (length md) (length ents))
                          else (case join_to_bytes md of
                                  Inl e \<Rightarrow> Inl e
                                | Inr trailer \<Rightarrow> Inr (header_bytes @ body @ trailer))))))"

text \<open>
  The end of \<^verbatim>\<open>load_entries(path)\<close>, after the file has been read and parsed into the
  entries and the optional metadata: an empty entry list is refused.
\<close>

definition load_entries_check ::
  "str list \<Rightarrow> int list option \<Rightarrow> error + (str list \<times> int list option)" where
  "load_entries_check ents meta =
     (if ents = [] then Inl EmptyInput else Inr (ents, meta))"

text \<open>
  \<^verbatim>\<open>main()\<close> of \<^verbatim>\<open>pack_checkbin.py\<close> from the parsed input on: the loaded entries
  go to \<^verbatim>\<open>pack_entries\<close>.
\<close>

definition pack_main ::
  "str list \<Rightarrow> int list option \<Rightarrow> int \<times> int \<times> int \<Rightarrow> error + byte list" where
  "pack_main ents meta hdr =
     (case load_entries_check ents meta of
        Inl e \<Rightarrow> Inl e
      | Inr (es, md) \<Rightarrow> pack_entries es hdr md)"

section \<open>Auxiliary notions\<close>

text \<open>
  Names for parts of the two functions, used to state and prove their properties:
  the four bytes \<^verbatim>\<open>to_bytes\<close> writes, an entry that fits its slot and the slot it
  fills, the metadata after \<^verbatim>\<open>None\<close> has been replaced, the buffer
  \<^verbatim>\<open>header_bytes + body + trailer\<close>, and the \<^verbatim>\<open>count\<close> and
  \<^verbatim>\<open>expected_size\<close> that \<^verbatim>\<open>parse_entries\<close> computes from a buffer.
\<close>

definition le4 :: "int \<Rightarrow> byte list" where
  "le4 v = [word_of_int v, word_of_int (v div 2 ^ 8),
            word_of_int (v div 2 ^ 16), word_of_int (v div 2 ^ 24)]"

definition entry_ok :: "str \<Rightarrow> bool" where
  "entry_ok e = (case utf8_encode e of Inl _ \<Rightarrow> False | Inr enc \<Rightarrow> length enc \<le> ENTRY_SIZE)"

definition slot_of :: "str \<Rightarrow> byte list" where
  "slot_of e = (case utf8_encode e of Inl _ \<Rightarrow> [] | Inr enc \<Rightarrow> ljust enc ENTRY_SIZE)"

definition resolve_metadata :: "int list option \<Rightarrow> nat \<Rightarrow> int list" where
  "resolve_metadata meta n = (case meta of None \<Rightarrow> replicate n 0 | Some m \<Rightarrow> m)"

definition layout :: "str list \<Rightarrow> int \<times> int \<times> int \<Rightarrow> int list \<Rightarrow> byte list" where
  "layout ents hdr md =
     (case hdr of (h0, h1, h2) \<Rightarrow>
        concat (map le4 [h0, h1, h2, int (length ents)])
          @ concat (map slot_of ents) @ concat (map le4 md))"

definition declared_count :: "byte list \<Rightarrow> nat" where
  "declared_count data = from_bytes_le (take 4 (drop 12 data))"

definition expected_size :: "byte list \<Rightarrow> nat" where
  "expected_size data = 16 + declared_count data * ENTRY_SIZE + declared_count data * 4"

text \<open>
  A buffer used as a worked example: header \<open>(2008, 1, 7)\<close>, the entries \<^verbatim>\<open>"a"\<close> and
  \<^verbatim>\<open>"bb"\<close>, the metadata \<open>[3, 4]\<close>.
\<close>

definition example_buffer :: "byte list" where
  "example_buffer =
     [216, 7, 0, 0, 1, 0, 0, 0, 7, 0, 0, 0, 2, 0, 0, 0]
       @ (97 # replicate 259 0) @ (98 # 98 # replicate 258 0) @ [3, 0, 0, 0, 4, 0, 0, 0]"

text \<open>
  The buffer packed from the single entry \<^verbatim>\<open>"a\x00b"\<close> with metadata \<open>[5]\<close>, and the
  buffer of the scenario of entries \<^verbatim>\<open>"a"\<close> and \<^verbatim>\<open>"bb"\<close> without metadata.
\<close>

definition nul_entry_buffer :: "byte list" where
  "nul_entry_buffer =
     [216, 7, 0, 0, 1, 0, 0, 0, 7, 0, 0, 0, 1, 0, 0, 0]
       @ (97 # 0 # 98 # replicate 257 0) @ [5, 0, 0, 0]"

definition scenario_buffer :: "byte list" where
  "scenario_buffer =
     [0xD8, 0x07, 0, 0, 0x01, 0, 0, 0, 0x07, 0, 0, 0, 0x02, 0, 0, 0]
       @ (97 # replicate 259 0) @ (98 # 98 # replicate 258 0) @ replicate 8 0"

text \<open>
  A buffer of one entry whose slot holds the byte \<^verbatim>\<open>0xFF\<close>, which is not valid UTF-8,
  between the bytes of \<^verbatim>\<open>"a"\<close> and \<^verbatim>\<open>"b"\<close>.
\<close>

definition lossy_buffer :: "byte list" where
  "lossy_buffer =
     [1, 0, 0, 0, 2, 0, 0, 0, 3, 0, 0, 0, 1, 0, 0, 0]
       @ (0x61 # 0xFF # 0x62 # replicate 257 0) @ [9, 0, 0, 0]"

section \<open>Facts about the built-ins\<close>

subsection \<open>Four-byte little-endian integers\<close>

lemma to_bytes4_Inr_iff: "(\<exists>bs. to_bytes4 v = Inr bs) \<longleftrightarrow> u32 v"
  by (auto simp: to_bytes4_def u32_def)

lemma to_bytes4_Inl: "to_bytes4 v = Inl e \<Longrightarrow> e = OverflowError \<and> \<not> u32 v"
  by (auto simp: to_bytes4_def u32_def split: if_splits)

lemma to_bytes4_length: "to_bytes4 v = Inr bs \<Longrightarrow> length bs = 4"
  by (auto simp: to_bytes4_def split: if_splits)

lemma unat_byte_of_int: "unat (word_of_int k :: byte) = nat (k mod 256)"
  by (simp add: unat_eq_nat_uint uint_word_of_int)

lemma le_bytes_split:
  fixes v :: int
  assumes "0 \<le> v" "v < 2 ^ 32"
  shows "v mod 256 + 256 * ((v div 2 ^ 8) mod 256 + 256 * ((v div 2 ^ 16) mod 256
           + 256 * ((v div 2 ^ 24) mod 256))) = v"
proof -
  define a where "a = v div 256"
  define b where "b = a div 256"
  define c where "c = b div 256"
  have d16: "v div 2 ^ 16 = b"
    unfolding b_def a_def by (simp add: zdiv_zmult2_eq)
  have d24: "v div 2 ^ 24 = c"
    unfolding c_def b_def a_def by (simp add: zdiv_zmult2_eq)
  have "c < 256" using assms unfolding d24 [symmetric] by simp
  moreover have "0 \<le> c" using assms unfolding d24 [symmetric] by simp
  ultimately have c: "c mod 256 = c" by simp
  have "v = v mod 256 + 256 * a" unfolding a_def by simp
  moreover have "a = a mod 256 + 256 * b" unfolding b_def by simp
  moreover have "b = b mod 256 + 256 * c" unfolding c_def by simp
  ultimately have "v = v mod 256 + 256 * (a mod 256 + 256 * (b mod 256 + 256 * c))"
    by simp
  then show ?thesis
    unfolding d16 d24 c using a_def by simp
qed

lemma from_bytes_le_to_bytes4:
  assumes "to_bytes4 v = Inr bs"
  shows "int (from_bytes_le bs) = v"
proof -
  from assms have v: "0 \<le> v" "v < 2 ^ 32"
    and bs: "bs = [word_of_int v, word_of_int (v div 2 ^ 8),
                word_of_int (v div 2 ^ 16), word_of_int (v div 2 ^ 24)]"
    by (auto simp: to_bytes4_def split: if_splits)
  have "int (from_bytes_le bs) =
     v mod 256 + 256 * ((v div 2 ^ 8) mod 256 + 256 * ((v div 2 ^ 16) mod 256
           + 256 * ((v div 2 ^ 24) mod 256)))"
    unfolding bs by (simp add: unat_byte_of_int)
  also have "\<dots> = v" using v by (rule le_bytes_split)
  finally show ?thesis .
qed

subsection \<open>UTF-8: decoding what the encoder wrote\<close>

lemma encode_cp_bytes: "c < 0x110000 \<Longrightarrow> b \<in> set (encode_cp c) \<Longrightarrow> b < 256"
  by (auto simp: encode_cp_def split: if_splits)

lemma encode_cp_nonzero: "0 < c \<Longrightarrow> b \<in> set (encode_cp c) \<Longrightarrow> 0 < b"
  by (auto simp: encode_cp_def split: if_splits)

lemma decode_encode_cp1:
  assumes "c < 0x80"
  shows "utf8_decode_nat (encode_cp c @ rest) = c # utf8_decode_nat rest"
  using assms by (simp add: encode_cp_def)

lemma decode_encode_cp2:
  assumes "0x80 \<le> c" "c < 0x800"
  shows "utf8_decode_nat (encode_cp c @ rest) = c # utf8_decode_nat rest"
proof -
  have d: "2 \<le> c div 64" "c div 64 < 32" using assms by simp_all
  have m: "c mod 64 < 64" by simp
  have c: "64 * (c div 64) + c mod 64 = c" by simp
  have e: "encode_cp c = [0xC0 + c div 64, 0x80 + c mod 64]"
    using assms by (simp add: encode_cp_def)
  show ?thesis
    unfolding e using d m c by (simp add: is_cont_def)
qed

lemma decode_encode_cp3:
  assumes "0x800 \<le> c" "c < 0x10000" "\<not> is_surrogate c"
  shows "utf8_decode_nat (encode_cp c @ rest) = c # utf8_decode_nat rest"
proof -
  define q where "q = c div 64"
  define h where "h = q div 64"
  define m where "m = q mod 64"
  define l where "l = c mod 64"
  have h_eq: "c div 4096 = h"
    unfolding h_def q_def by (simp add: div_mult2_eq)
  have c_eq: "c = 4096 * h + 64 * m + l"
  proof -
    have "c = 64 * q + l" unfolding q_def l_def by simp
    moreover have "q = 64 * h + m" unfolding h_def m_def by simp
    ultimately show ?thesis by simp
  qed
  have bounds: "h < 16" "m < 64" "l < 64"
    using assms unfolding h_eq [symmetric] m_def l_def by simp_all
  have lo: "h = 0 \<Longrightarrow> 32 \<le> m"
    using assms(1) bounds unfolding c_eq by simp
  have sur: "h = 13 \<Longrightarrow> m < 32"
    using assms(3) bounds unfolding c_eq is_surrogate_def by simp
  have e: "encode_cp c = [0xE0 + h, 0x80 + m, 0x80 + l]"
    using assms by (simp add: encode_cp_def h_eq q_def [symmetric] m_def l_def)
  show ?thesis
    unfolding e using bounds lo sur by (auto simp: is_cont_def c_eq)
qed

lemma decode_encode_cp4:
  assumes "0x10000 \<le> c" "c < 0x110000"
  shows "utf8_decode_nat (encode_cp c @ rest) = c # utf8_decode_nat rest"
proof -
  define q where "q = c div 64"
  define r where "r = q div 64"
  define h where "h = r div 64"
  define m where "m = r mod 64"
  define k where "k = q mod 64"
  define l where "l = c mod 64"
  have r_eq: "c div 4096 = r"
    unfolding r_def q_def by (simp add: div_mult2_eq)
  have h_eq: "c div 262144 = h"
    unfolding h_def r_def q_def by (simp add: div_mult2_eq)
  have c_eq: "c = 262144 * h + 4096 * m + 64 * k + l"
  proof -
    have "c = 64 * q + l" unfolding q_def l_def by simp
    moreover have "q = 64 * r + k" unfolding r_def k_def by simp
    moreover have "r = 64 * h + m" unfolding h_def m_def by simp
    ultimately show ?thesis by simp
  qed
  have bounds: "h < 5" "m < 64" "k < 64" "l < 64"
    using assms unfolding h_eq [symmetric] m_def k_def l_def by simp_all
  have lo: "h = 0 \<Longrightarrow> 16 \<le> m"
    using assms(1) bounds unfolding c_eq by simp
  have hi: "h = 4 \<Longrightarrow> m < 16"
    using assms(2) bounds unfolding c_eq by simp
  have e: "encode_cp c = [0xF0 + h, 0x80 + m, 0x80 + k, 0x80 + l]"
    using assms
    by (simp add: encode_cp_def h_eq r_eq q_def [symmetric] m_def k_def l_def)
  show ?thesis
    unfolding e using bounds lo hi by (auto simp: is_cont_def c_eq)
qed

lemma decode_encode_cp:
  assumes "c < 0x110000" "\<not> is_surrogate c"
  shows "utf8_decode_nat (encode_cp c @ rest) = c # utf8_decode_nat rest"
proof -
  consider "c < 0x80" | "0x80 \<le> c" "c < 0x800" | "0x800 \<le> c" "c < 0x10000"
    | "0x10000 \<le> c"
    by linarith
  then show ?thesis
  proof cases
    case 1
    then show ?thesis by (rule decode_encode_cp1)
  next
    case 2
    then show ?thesis by (rule decode_encode_cp2)
  next
    case 3
    then show ?thesis using assms(2) by (rule decode_encode_cp3)
  next
    case 4
    then show ?thesis using assms(1) by (rule decode_encode_cp4)
  qed
qed

lemma utf8_decode_encode_nat:
  "utf8_encode_nat s = Inr bs \<Longrightarrow> valid_str s \<Longrightarrow> utf8_decode_nat bs = s"
proof (induction s arbitrary: bs)
  case Nil
  then show ?case by simp
next
  case (Cons c cs)
  from Cons.prems(1) obtain r where ns: "\<not> is_surrogate c"
    and r: "utf8_encode_nat cs = Inr r" and bs: "bs = encode_cp c @ r"
    by (auto split: if_splits sum.splits)
  from Cons.prems(2) have c: "c < 0x110000" and cs: "valid_str cs"
    by (simp_all add: valid_str_def)
  have "utf8_decode_nat r = cs" using r cs by (rule Cons.IH)
  then show ?case unfolding bs using c ns by (simp add: decode_encode_cp)
qed

lemma utf8_encode_nat_bytes:
  "utf8_encode_nat s = Inr bs \<Longrightarrow> valid_str s \<Longrightarrow> b \<in> set bs \<Longrightarrow> b < 256"
proof (induction s arbitrary: bs)
  case Nil
  then show ?case by simp
next
  case (Cons c cs)
  from Cons.prems(1) obtain r where r: "utf8_encode_nat cs = Inr r"
    and bs: "bs = encode_cp c @ r"
    by (auto split: if_splits sum.splits)
  from Cons.prems(2) have c: "c < 0x110000" and cs: "valid_str cs"
    by (simp_all add: valid_str_def)
  from Cons.prems(3) consider "b \<in> set (encode_cp c)" | "b \<in> set r"
    unfolding bs by auto
  then show ?case
  proof cases
    case 1
    with c show ?thesis by (rule encode_cp_bytes)
  next
    case 2
    with r cs show ?thesis by (rule Cons.IH)
  qed
qed

lemma utf8_encode_nat_nonzero:
  "utf8_encode_nat s = Inr bs \<Longrightarrow> 0 \<notin> set s \<Longrightarrow> 0 \<notin> set bs"
proof (induction s arbitrary: bs)
  case Nil
  then show ?case by simp
next
  case (Cons c cs)
  from Cons.prems(1) obtain r where r: "utf8_encode_nat cs = Inr r"
    and bs: "bs = encode_cp c @ r"
    by (auto split: if_splits sum.splits)
  from Cons.prems(2) have c: "0 < c" and cs: "0 \<notin> set cs" by simp_all
  have "0 \<notin> set r" using r cs by (rule Cons.IH)
  moreover have "0 \<notin> set (encode_cp c)" using encode_cp_nonzero [OF c] by blast
  ultimately show ?case unfolding bs by simp
qed

text \<open>The same on bytes.\<close>

lemma utf8_decode_encode:
  assumes "utf8_encode s = Inr bs" "valid_str s"
  shows "utf8_decode_replace bs = s"
proof -
  from assms(1) obtain ns where ns: "utf8_encode_nat s = Inr ns"
    and bs: "bs = map of_nat ns"
    by (auto simp: utf8_encode_def split: sum.splits)
  have "unat (of_nat b :: byte) = b" if "b \<in> set ns" for b
    using utf8_encode_nat_bytes [OF ns assms(2) that] by (simp add: unat_of_nat)
  then have "map unat bs = ns"
    unfolding bs by (simp add: map_idI)
  then show ?thesis
    using utf8_decode_encode_nat [OF ns assms(2)] by (simp add: utf8_decode_replace_def)
qed

lemma utf8_encode_nonzero:
  assumes "utf8_encode s = Inr bs" "valid_str s" "0 \<notin> set s"
  shows "0 \<notin> set bs"
proof -
  from assms(1) obtain ns where ns: "utf8_encode_nat s = Inr ns"
    and bs: "bs = map of_nat ns"
    by (auto simp: utf8_encode_def split: sum.splits)
  have "(of_nat b :: byte) \<noteq> 0" if "b \<in> set ns" for b
  proof -
    have "b < 256" using ns assms(2) that by (rule utf8_encode_nat_bytes)
    moreover have "b \<noteq> 0"
    proof
      assume "b = 0"
      with that have "0 \<in> set ns" by simp
      with utf8_encode_nat_nonzero [OF ns assms(3)] show False by simp
    qed
    ultimately have "unat (of_nat b :: byte) \<noteq> 0" by (simp add: unat_of_nat)
    then show ?thesis by auto
  qed
  then show ?thesis unfolding bs by auto
qed

subsection \<open>Fixed-width slots in a buffer\<close>

lemma take_drop_concat_slot:
  assumes "\<forall>x\<in>set xss. length x = n" "i < length xss"
  shows "take n (drop (i * n) (concat xss @ rest)) = xss ! i"
  using assms
proof (induction xss arbitrary: i)
  case Nil
  then show ?case by simp
next
  case (Cons x xss)
  show ?case
  proof (cases i)
    case 0
    with Cons.prems show ?thesis by simp
  next
    case (Suc j)
    with Cons.prems have "take n (drop (j * n) (concat xss @ rest)) = xss ! j"
      by (intro Cons.IH) auto
    with Suc Cons.prems show ?thesis by simp
  qed
qed

lemma length_concat_slots:
  "\<forall>x\<in>set xss. length x = n \<Longrightarrow> length (concat xss) = length xss * n"
  by (induction xss) auto

lemma map_slots:
  assumes "\<forall>x\<in>set xss. length x = n" "length pre = off"
  shows "map (\<lambda>i. f (take n (drop (off + i * n) (pre @ concat xss @ rest)))) [0..<length xss]
           = map f xss"
proof -
  have "f (take n (drop (off + i * n) (pre @ concat xss @ rest))) = f (xss ! i)"
    if "i < length xss" for i
    using take_drop_concat_slot [OF assms(1) that, of rest] assms(2) by simp
  then have "map (\<lambda>i. f (take n (drop (off + i * n) (pre @ concat xss @ rest)))) [0..<length xss]
      = map (\<lambda>i. f (xss ! i)) [0..<length xss]"
    by simp
  also have "\<dots> = map f xss"
    by (rule nth_equalityI) simp_all
  finally show ?thesis .
qed

lemma range4_mult: "range4 (n * 4) = map (\<lambda>k. k * 4) [0..<n]"
  by (simp add: range4_def mult.commute)

subsection \<open>Joined integers\<close>

lemma to_bytes4_le4: "u32 v \<Longrightarrow> to_bytes4 v = Inr (le4 v)"
  by (simp add: to_bytes4_def le4_def u32_def)

lemma from_bytes_le_le4: "u32 v \<Longrightarrow> int (from_bytes_le (le4 v)) = v"
  using from_bytes_le_to_bytes4 [of v "le4 v"] by (simp add: to_bytes4_le4)

lemma join_to_bytes_ok:
  "list_all u32 vs \<Longrightarrow> join_to_bytes vs = Inr (concat (map le4 vs))"
  by (induction vs) (simp_all add: to_bytes4_le4)

lemma join_to_bytes_Inr:
  "join_to_bytes vs = Inr bs \<Longrightarrow> list_all u32 vs \<and> bs = concat (map le4 vs)"
proof (induction vs arbitrary: bs)
  case Nil
  then show ?case by simp
next
  case (Cons v vs)
  from Cons.prems obtain b r where b: "to_bytes4 v = Inr b"
    and r: "join_to_bytes vs = Inr r" and bs: "bs = b @ r"
    by (auto split: sum.splits)
  from b have v: "u32 v" using to_bytes4_Inr_iff by blast
  with b have "b = le4 v" by (simp add: to_bytes4_le4)
  with Cons.IH [OF r] v bs show ?case by simp
qed

lemma join_to_bytes_Inl:
  "join_to_bytes vs = Inl e \<Longrightarrow> e = OverflowError \<and> \<not> list_all u32 vs"
proof (induction vs)
  case Nil
  then show ?case by simp
next
  case (Cons v vs)
  then show ?case
    by (auto split: sum.splits dest: to_bytes4_Inl simp: to_bytes4_Inr_iff [symmetric])
qed

lemma join_to_bytes_bad:
  "\<not> list_all u32 vs \<Longrightarrow> join_to_bytes vs = Inl OverflowError"
  by (cases "join_to_bytes vs") (auto dest: join_to_bytes_Inl join_to_bytes_Inr)

lemma length_le4: "length (le4 v) = 4"
  by (simp add: le4_def)

lemma length_join: "length (concat (map le4 vs)) = length vs * 4"
  by (rule length_concat_slots [of "map le4 vs" 4, simplified]) (simp add: length_le4)

lemma parse_joined:
  assumes "list_all u32 vs"
  shows "map (\<lambda>i. int (from_bytes_le (take 4 (drop i (concat (map le4 vs))))))
             (range4 (length vs * 4)) = vs"
proof -
  have sl: "\<forall>x\<in>set (map le4 vs). length x = 4" by (simp add: length_le4)
  have "map (\<lambda>i. int (from_bytes_le (take 4 (drop i (concat (map le4 vs))))))
             (range4 (length vs * 4))
      = map (\<lambda>k. int (from_bytes_le (take 4 (drop (0 + k * 4) ([] @ concat (map le4 vs) @ [])))))
             [0..<length (map le4 vs)]"
    by (simp add: range4_mult comp_def)
  also have "\<dots> = map (\<lambda>x. int (from_bytes_le x)) (map le4 vs)"
    using sl by (rule map_slots) simp
  also have "\<dots> = vs"
    using assms by (induction vs) (simp_all add: from_bytes_le_le4)
  finally show ?thesis .
qed

section \<open>Facts about \<^verbatim>\<open>pack_entries\<close>\<close>

lemma entry_ok_iff:
  "entry_ok e \<longleftrightarrow> (\<exists>enc. utf8_encode e = Inr enc \<and> length enc \<le> ENTRY_SIZE)"
  by (auto simp: entry_ok_def split: sum.splits)

lemma length_slot_of: "entry_ok e \<Longrightarrow> length (slot_of e) = ENTRY_SIZE"
  by (auto simp: entry_ok_def slot_of_def ljust_def split: sum.splits)

lemma pack_body_ok:
  "list_all entry_ok es \<Longrightarrow> pack_body acc es = Inr (acc @ concat (map slot_of es))"
proof (induction es arbitrary: acc)
  case Nil
  then show ?case by simp
next
  case (Cons e es)
  from Cons.prems have e: "entry_ok e" and es: "list_all entry_ok es" by simp_all
  from e obtain enc where enc: "utf8_encode e = Inr enc" "length enc \<le> ENTRY_SIZE"
    unfolding entry_ok_iff by blast
  show ?case
    using enc Cons.IH [OF es] by (simp add: slot_of_def)
qed

lemma pack_body_Inr: "pack_body acc es = Inr body \<Longrightarrow> list_all entry_ok es"
proof (induction es arbitrary: acc)
  case Nil
  then show ?case by simp
next
  case (Cons e es)
  from Cons.prems obtain enc where enc: "utf8_encode e = Inr enc" "length enc \<le> ENTRY_SIZE"
    and r: "pack_body (acc @ ljust enc ENTRY_SIZE) es = Inr body"
    by (auto split: sum.splits if_splits)
  from enc have "entry_ok e" by (auto simp: entry_ok_iff)
  with Cons.IH [OF r] show ?case by simp
qed

lemma pack_body_too_long:
  assumes "list_all entry_ok pre" "utf8_encode e = Inr enc" "ENTRY_SIZE < length enc"
  shows "pack_body acc (pre @ e # post) = Inl (EntryTooLong (length enc) e)"
  using assms(1)
proof (induction pre arbitrary: acc)
  case Nil
  then show ?case using assms(2,3) by simp
next
  case (Cons p pre)
  from Cons.prems have p: "entry_ok p" and pre: "list_all entry_ok pre" by simp_all
  from p obtain pe where pe: "utf8_encode p = Inr pe" "length pe \<le> ENTRY_SIZE"
    unfolding entry_ok_iff by blast
  show ?case using pe Cons.IH [OF pre] by simp
qed

lemma pack_body_unencodable:
  assumes "list_all entry_ok pre" "utf8_encode e = Inl err"
  shows "pack_body acc (pre @ e # post) = Inl err"
  using assms(1)
proof (induction pre arbitrary: acc)
  case Nil
  then show ?case using assms(2) by simp
next
  case (Cons p pre)
  from Cons.prems have p: "entry_ok p" and pre: "list_all entry_ok pre" by simp_all
  from p obtain pe where pe: "utf8_encode p = Inr pe" "length pe \<le> ENTRY_SIZE"
    unfolding entry_ok_iff by blast
  show ?case using pe Cons.IH [OF pre] by simp
qed

lemma split_nul_ljust:
  assumes "0 \<notin> set enc"
  shows "split_nul (ljust enc n) = enc"
proof -
  have nz: "\<And>x. x \<in> set enc \<Longrightarrow> x \<noteq> 0" using assms by auto
  have "takeWhile (\<lambda>b. b \<noteq> 0) (replicate k (0::byte)) = []" for k
    by (cases k) simp_all
  then show ?thesis
    unfolding split_nul_def ljust_def by (simp add: nz)
qed

lemma pack_entries_Inr_iff:
  "pack_entries es (m, v, f) meta = Inr buf \<longleftrightarrow>
     u32 m \<and> u32 v \<and> u32 f \<and> u32 (int (length es)) \<and> list_all entry_ok es \<and>
     length (resolve_metadata meta (length es)) = length es \<and>
     list_all u32 (resolve_metadata meta (length es)) \<and>
     buf = layout es (m, v, f) (resolve_metadata meta (length es))"
  (is "?L \<longleftrightarrow> ?R")
proof
  assume ?L
  then obtain hb cb body trailer where
    hb: "join_to_bytes [m, v, f] = Inr hb" and cb: "to_bytes4 (int (length es)) = Inr cb"
    and body: "pack_body [] es = Inr body"
    and len: "length (resolve_metadata meta (length es)) = length es"
    and tr: "join_to_bytes (resolve_metadata meta (length es)) = Inr trailer"
    and buf: "buf = (hb @ cb) @ body @ trailer"
    unfolding pack_entries_def resolve_metadata_def
    by (simp add: Let_def split: sum.splits if_splits)
  from join_to_bytes_Inr [OF hb] have h: "u32 m" "u32 v" "u32 f" "hb = le4 m @ le4 v @ le4 f"
    by simp_all
  from cb have c: "u32 (int (length es))" using to_bytes4_Inr_iff by blast
  with cb have cb': "cb = le4 (int (length es))" by (simp add: to_bytes4_le4)
  from pack_body_Inr [OF body] have ok: "list_all entry_ok es" .
  with body have body': "body = concat (map slot_of es)" by (simp add: pack_body_ok)
  from join_to_bytes_Inr [OF tr] have t: "list_all u32 (resolve_metadata meta (length es))"
    "trailer = concat (map le4 (resolve_metadata meta (length es)))"
    by simp_all
  show ?R
    using h c ok len t buf cb' body' by (simp add: layout_def)
next
  assume R: ?R
  then have hb: "join_to_bytes [m, v, f] = Inr (le4 m @ le4 v @ le4 f)"
    by (simp add: to_bytes4_le4)
  from R have cb: "to_bytes4 (int (length es)) = Inr (le4 (int (length es)))"
    by (simp add: to_bytes4_le4)
  from R have body: "pack_body [] es = Inr (concat (map slot_of es))"
    by (simp add: pack_body_ok)
  from R have tr: "join_to_bytes (resolve_metadata meta (length es))
       = Inr (concat (map le4 (resolve_metadata meta (length es))))"
    by (simp add: join_to_bytes_ok)
  from R have len: "length (resolve_metadata meta (length es)) = length es" by simp
  from R have buf: "buf = layout es (m, v, f) (resolve_metadata meta (length es))" by simp
  show ?L
    unfolding pack_entries_def resolve_metadata_def [symmetric]
    by (simp add: hb cb body tr len buf layout_def Let_def del: join_to_bytes.simps)
qed

section \<open>Facts about \<^verbatim>\<open>parse_entries\<close>\<close>

lemma parse_entries_truncated:
  "length data < 16 \<Longrightarrow> parse_entries data = Inl TruncatedHeader"
  by (simp add: parse_entries_def)

lemma parse_entries_mismatch:
  "16 \<le> length data \<Longrightarrow> length data \<noteq> expected_size data \<Longrightarrow>
     parse_entries data = Inl (SizeMismatch (length data) (expected_size data))"
  unfolding parse_entries_def expected_size_def declared_count_def Let_def
  by simp

lemma hdr_nth:
  "map f [0, 4, 8, 12::nat] ! 0 = f 0" "map f [0, 4, 8, 12::nat] ! 1 = f 4"
  "map f [0, 4, 8, 12::nat] ! 2 = f 8" "map f [0, 4, 8, 12::nat] ! 3 = f 12"
  by simp_all

lemma parse_entries_sized:
  assumes "16 \<le> length data" "length data = expected_size data"
  shows "parse_entries data =
     Inr \<lparr>header = \<lparr>magic = int (from_bytes_le (take 4 data)),
                      version = int (from_bytes_le (take 4 (drop 4 data))),
                      flags = int (from_bytes_le (take 4 (drop 8 data))),
                      count = int (declared_count data)\<rparr>,
          entries = map (\<lambda>idx. utf8_decode_replace
                            (split_nul (take ENTRY_SIZE (drop (16 + idx * ENTRY_SIZE) data))))
                        [0..<declared_count data],
          metadata = map (\<lambda>i. int (from_bytes_le
                            (take 4 (drop i (drop (16 + declared_count data * ENTRY_SIZE) data)))))
                         (range4 (declared_count data * 4))\<rparr>"
proof -
  define cnt where "cnt = from_bytes_le (take 4 (drop 12 data))"
  define tr where "tr = drop (16 + cnt * ENTRY_SIZE) data"
  have c1: "\<not> length data < 16" using assms(1) by simp
  have sz: "length data = 16 + cnt * ENTRY_SIZE + cnt * 4"
    using assms(2) unfolding expected_size_def declared_count_def cnt_def .
  then have c2: "\<not> length data \<noteq> 16 + cnt * ENTRY_SIZE + cnt * 4" by simp
  have l3: "length tr = cnt * 4"
    unfolding tr_def length_drop sz by simp
  then have c3: "\<not> length tr \<noteq> cnt * 4" by simp
  show ?thesis
    unfolding parse_entries_def Let_def hdr_nth declared_count_def
      cnt_def [symmetric] tr_def [symmetric]
    apply (simp only: c1 c2 c3 if_False)
    apply (simp only: l3 drop_0 map_map comp_def)
    done
qed


lemma parse_layout:
  assumes hdr: "u32 m" "u32 v" "u32 f" and n: "u32 (int (length es))"
    and ok: "list_all entry_ok es"
    and md: "length md = length es" "list_all u32 md"
  shows "parse_entries (layout es (m, v, f) md) =
     Inr \<lparr>header = \<lparr>magic = m, version = v, flags = f, count = int (length es)\<rparr>,
          entries = map (\<lambda>e. utf8_decode_replace (split_nul (slot_of e))) es,
          metadata = md\<rparr>"
proof -
  define H where "H = le4 m @ le4 v @ le4 f @ le4 (int (length es))"
  define B where "B = concat (map slot_of es)"
  define T where "T = concat (map le4 md)"
  define data where "data = layout es (m, v, f) md"
  have data: "data = H @ B @ T"
    by (simp add: data_def layout_def H_def B_def T_def)
  have lenH: "length H = 16" by (simp add: H_def length_le4)
  have slots: "\<forall>x\<in>set (map slot_of es). length x = ENTRY_SIZE"
    using ok by (auto simp: list_all_iff length_slot_of)
  have lenB: "length B = length es * ENTRY_SIZE"
    unfolding B_def using length_concat_slots [OF slots] by simp
  have lenT: "length T = length es * 4"
    unfolding T_def by (simp add: length_join md(1))
  have f0: "take 4 data = le4 m"
    by (simp add: data H_def length_le4)
  have f4: "take 4 (drop 4 data) = le4 v"
    by (simp add: data H_def length_le4)
  have f8: "take 4 (drop 8 data) = le4 f"
    by (simp add: data H_def length_le4)
  have f12: "take 4 (drop 12 data) = le4 (int (length es))"
    by (simp add: data H_def length_le4)
  have "int (declared_count data) = int (length es)"
    unfolding declared_count_def f12 using n by (rule from_bytes_le_le4)
  then have cnt: "declared_count data = length es" by simp
  have len: "length data = expected_size data"
    unfolding expected_size_def cnt by (simp add: data lenH lenB lenT)
  have ge: "16 \<le> length data" by (simp add: data lenH)
  have ents: "map (\<lambda>idx. utf8_decode_replace
                     (split_nul (take ENTRY_SIZE (drop (16 + idx * ENTRY_SIZE) data))))
                 [0..<length es]
          = map (\<lambda>e. utf8_decode_replace (split_nul (slot_of e))) es"
  proof -
    have "map (\<lambda>idx. (\<lambda>x. utf8_decode_replace (split_nul x))
                     (take ENTRY_SIZE (drop (16 + idx * ENTRY_SIZE) (H @ concat (map slot_of es) @ T))))
                 [0..<length (map slot_of es)]
          = map (\<lambda>x. utf8_decode_replace (split_nul x)) (map slot_of es)"
      using slots lenH by (rule map_slots)
    then show ?thesis by (simp add: data B_def comp_def)
  qed
  have tr: "drop (16 + length es * ENTRY_SIZE) data = T"
    by (simp add: data lenH lenB)
  have meta: "map (\<lambda>i. int (from_bytes_le (take 4 (drop i T)))) (range4 (length es * 4)) = md"
    unfolding T_def md(1) [symmetric] using md(2) by (rule parse_joined)
  show ?thesis
    unfolding data_def [symmetric] parse_entries_sized [OF ge len] cnt tr ents meta f0 f4 f8
    using hdr by (simp add: from_bytes_le_le4)
qed

lemma from_bytes_le_bound: "from_bytes_le bs < 256 ^ length bs"
proof (induction bs)
  case Nil
  then show ?case by simp
next
  case (Cons b bs)
  have "unat b < 256" using unsigned_less [of b, where ?'a = nat] by simp
  moreover have "from_bytes_le bs + 1 \<le> 256 ^ length bs" using Cons.IH by simp
  then have "256 * (from_bytes_le bs + 1) \<le> 256 * 256 ^ length bs"
    by (rule mult_le_mono2)
  ultimately show ?case by simp
qed

lemma u32_from_bytes_le_take4: "u32 (int (from_bytes_le (take 4 bs)))"
proof -
  have "from_bytes_le (take 4 bs) < 256 ^ length (take 4 bs)" by (rule from_bytes_le_bound)
  also have "\<dots> \<le> (256::nat) ^ 4" by (rule power_increasing) simp_all
  finally have "from_bytes_le (take 4 bs) < 2 ^ 32" by simp
  then have "int (from_bytes_le (take 4 bs)) < int (2 ^ 32)" by (simp only: of_nat_less_iff)
  then show ?thesis by (simp add: u32_def)
qed

lemma parse_entries_Inr:
  assumes "parse_entries data = Inr r"
  shows "16 \<le> length data" "length data = expected_size data"
proof -
  show ge: "16 \<le> length data"
    using assms parse_entries_truncated [of data] by (cases "length data < 16") simp_all
  show "length data = expected_size data"
    using assms parse_entries_mismatch [OF ge]
    by (cases "length data = expected_size data") simp_all
qed


lemma from_bytes_le_zeros: "from_bytes_le (replicate n 0) = 0"
  by (induction n) simp_all

section \<open>Further facts about the packed buffer\<close>

lemma entries_ok_iff:
  "(\<forall>e\<in>set es. \<exists>enc. utf8_encode e = Inr enc \<and> length enc \<le> 260) \<longleftrightarrow> list_all entry_ok es"
  by (simp add: list_all_iff entry_ok_iff ENTRY_SIZE_def)

lemma decode_slot:
  assumes "valid_str e" "0 \<notin> set e" "utf8_encode e = Inr enc"
  shows "utf8_decode_replace (split_nul (slot_of e)) = e"
proof -
  have "0 \<notin> set enc" using assms(3,1,2) by (rule utf8_encode_nonzero)
  then have "split_nul (slot_of e) = enc"
    using assms(3) by (simp add: slot_of_def split_nul_ljust)
  then show ?thesis using utf8_decode_encode [OF assms(3,1)] by simp
qed

lemma utf8_encode_ascii:
  "list_all (\<lambda>c. c < 0x80) s \<Longrightarrow> utf8_encode s = Inr (map of_nat s)"
proof -
  assume a: "list_all (\<lambda>c. c < 0x80) s"
  then have "utf8_encode_nat s = Inr s"
    by (induction s) (simp_all add: is_surrogate_def encode_cp_def)
  then show ?thesis by (simp add: utf8_encode_def)
qed

lemma utf8_encode_replicate_a: "utf8_encode (replicate n 97) = Inr (replicate n 97)"
  using utf8_encode_ascii [of "replicate n 97"] by (simp add: list_all_iff)

lemma slot_at:
  assumes "list_all entry_ok es" "i < length es"
  shows "take 260 (drop (16 + 260 * i) (layout es (m, v, f) md)) = slot_of (es ! i)"
proof -
  have slots: "\<forall>x\<in>set (map slot_of es). length x = 260"
    using assms(1) by (auto simp: list_all_iff length_slot_of [unfolded ENTRY_SIZE_def])
  have "take 260 (drop (i * 260) (concat (map slot_of es) @ concat (map le4 md)))
          = map slot_of es ! i"
    using slots by (rule take_drop_concat_slot) (simp add: assms(2))
  then show ?thesis
    using assms(2) by (simp add: layout_def length_le4 mult.commute)
qed

lemma trailer_of_layout:
  assumes "list_all entry_ok es"
  shows "drop (16 + 260 * length es) (layout es (m, v, f) md) = concat (map le4 md)"
proof -
  have slots: "\<forall>x\<in>set (map slot_of es). length x = 260"
    using assms by (auto simp: list_all_iff length_slot_of [unfolded ENTRY_SIZE_def])
  have "length (concat (map slot_of es)) = length es * 260"
    using length_concat_slots [OF slots] by simp
  then show ?thesis
    by (simp add: layout_def length_le4)
qed

lemma join_zeros: "concat (map le4 (replicate n 0)) = replicate (4 * n) 0"
proof (induction n)
  case 0
  then show ?case by simp
next
  case (Suc n)
  have "replicate (4 * Suc n) (0 :: byte) = replicate 4 0 @ replicate (4 * n) 0"
    by (simp add: replicate_add [symmetric])
  also have "replicate 4 (0 :: byte) = [0, 0, 0, 0]"
    by (simp add: numeral_eq_Suc)
  finally show ?case using Suc.IH by (simp add: le4_def)
qed

lemma pack_entries_body_error:
  assumes "u32 m" "u32 v" "u32 f" "u32 (int (length es))" "pack_body [] es = Inl err"
  shows "pack_entries es (m, v, f) meta = Inl err"
proof -
  have hb: "join_to_bytes [m, v, f] = Inr (concat (map le4 [m, v, f]))"
    by (rule join_to_bytes_ok) (simp add: assms)
  have cb: "to_bytes4 (int (length es)) = Inr (le4 (int (length es)))"
    using assms(4) by (rule to_bytes4_le4)
  show ?thesis
    unfolding pack_entries_def by (simp add: hb cb assms(5) del: join_to_bytes.simps)
qed

lemma resolve_metadata_ok:
  assumes "meta = None \<or> (\<exists>md. meta = Some md \<and> length md = n \<and> list_all u32 md)"
  shows "length (resolve_metadata meta n) = n \<and> list_all u32 (resolve_metadata meta n)"
  using assms by (auto simp: resolve_metadata_def list_all_iff u32_def)

section \<open>The worked example\<close>

lemmas eval_defs = u32_def entry_ok_def utf8_encode_def encode_cp_def
  is_surrogate_def ENTRY_SIZE_def resolve_metadata_def

lemma layout_example: "layout [[97], [98, 98]] (2008, 1, 7) [3, 4] = example_buffer"
  by (simp add: layout_def le4_def slot_of_def ljust_def eval_defs example_buffer_def)

lemma pack_example:
  "pack_entries [[97], [98, 98]] (2008, 1, 7) (Some [3, 4]) = Inr example_buffer"
  by (simp add: pack_entries_Inr_iff layout_example [symmetric] eval_defs)

lemma parse_example:
  "parse_entries example_buffer =
     Inr \<lparr>header = \<lparr>magic = 2008, version = 1, flags = 7, count = 2\<rparr>,
          entries = [[97], [98, 98]], metadata = [3, 4]\<rparr>"
proof -
  have "parse_entries (layout [[97], [98, 98]] (2008, 1, 7) [3, 4]) =
     Inr \<lparr>header = \<lparr>magic = 2008, version = 1, flags = 7,
                      count = int (length [[97], [98, 98 :: nat]])\<rparr>,
          entries = map (\<lambda>e. utf8_decode_replace (split_nul (slot_of e))) [[97], [98, 98]],
          metadata = [3, 4]\<rparr>"
    by (rule parse_layout) (simp_all add: eval_defs)
  then show ?thesis
    unfolding layout_example
    by (simp add: slot_of_def ljust_def split_nul_def utf8_decode_replace_def eval_defs)
qed

lemma layout_nul: "layout [[97, 0, 98]] (2008, 1, 7) [5] = nul_entry_buffer"
  by (simp add: layout_def le4_def slot_of_def ljust_def eval_defs nul_entry_buffer_def)

lemma eight_zeros: "replicate 8 (0 :: byte) = [0, 0, 0, 0, 0, 0, 0, 0]"
  by (simp add: numeral_eq_Suc)

lemma str_of_a: "str_of ''a'' = [97]" and str_of_bb: "str_of ''bb'' = [98, 98]"
  by (simp_all add: str_of_def)

lemma layout_scenario: "layout [[97], [98, 98]] (2008, 1, 7) [0, 0] = scenario_buffer"
  by (simp add: layout_def le4_def slot_of_def ljust_def eval_defs scenario_buffer_def
      eight_zeros)

lemma pack_scenario:
  "pack_entries [str_of ''a'', str_of ''bb''] (2008, 1, 7) None = Inr scenario_buffer"
  unfolding str_of_a str_of_bb
  by (simp add: pack_entries_Inr_iff layout_scenario [symmetric] eval_defs)

lemma parse_scenario:
  "parse_entries scenario_buffer =
     Inr \<lparr>header = \<lparr>magic = 2008, version = 1, flags = 7, count = 2\<rparr>,
          entries = [str_of ''a'', str_of ''bb''], metadata = [0, 0]\<rparr>"
proof -
  have "parse_entries (layout [[97], [98, 98]] (2008, 1, 7) [0, 0]) =
     Inr \<lparr>header = \<lparr>magic = 2008, version = 1, flags = 7,
                      count = int (length [[97], [98, 98 :: nat]])\<rparr>,
          entries = map (\<lambda>e. utf8_decode_replace (split_nul (slot_of e))) [[97], [98, 98]],
          metadata = [0, 0]\<rparr>"
    by (rule parse_layout) (simp_all add: eval_defs)
  then show ?thesis
    unfolding layout_scenario str_of_a str_of_bb
    by (simp add: slot_of_def ljust_def split_nul_def utf8_decode_replace_def eval_defs)
qed

section \<open>The claims\<close>

subsection \<open>C1: decoding what was encoded\<close>

text \<open>
  Claim C1 says that decoding an encoded record returns the record for all entries whose
  UTF-8 encoding has at most 260 bytes. The entry \<^verbatim>\<open>"a\x00b"\<close> has three encoded
  bytes, is packed, and comes back as \<^verbatim>\<open>"a"\<close>: the decoder cuts a slot at its first
  zero byte, and the zero byte of the entry is indistinguishable from the padding.
\<close>

theorem roundtrip_nul_counterexample:
  "utf8_encode [97, 0, 98] = Inr [97, 0, 98] \<and>
   pack_entries [[97, 0, 98]] (2008, 1, 7) (Some [5]) = Inr nul_entry_buffer \<and>
   parse_entries nul_entry_buffer =
     Inr \<lparr>header = \<lparr>magic = 2008, version = 1, flags = 7, count = 1\<rparr>,
          entries = [[97]], metadata = [5]\<rparr> \<and>
   [[97 :: nat]] \<noteq> [[97, 0, 98]]"
proof -
  have e: "utf8_encode [97, 0, 98] = Inr [97, 0, 98]"
    by (simp add: utf8_encode_def encode_cp_def is_surrogate_def)
  have p: "pack_entries [[97, 0, 98]] (2008, 1, 7) (Some [5]) = Inr nul_entry_buffer"
    by (simp add: pack_entries_Inr_iff layout_nul [symmetric] eval_defs)
  have "parse_entries (layout [[97, 0, 98]] (2008, 1, 7) [5]) =
     Inr \<lparr>header = \<lparr>magic = 2008, version = 1, flags = 7,
                      count = int (length [[97, 0, 98 :: nat]])\<rparr>,
          entries = map (\<lambda>e. utf8_decode_replace (split_nul (slot_of e))) [[97, 0, 98]],
          metadata = [5]\<rparr>"
    by (rule parse_layout) (simp_all add: eval_defs)
  then have q: "parse_entries nul_entry_buffer =
     Inr \<lparr>header = \<lparr>magic = 2008, version = 1, flags = 7, count = 1\<rparr>,
          entries = [[97]], metadata = [5]\<rparr>"
    unfolding layout_nul
    by (simp add: slot_of_def ljust_def split_nul_def utf8_decode_replace_def eval_defs)
  from e p q show ?thesis by simp
qed

text \<open>
  Claim C1, amended. Take fewer than \<open>2^32\<close> entries, each a string of code points up to
  \<^verbatim>\<open>0x10FFFF\<close> that does not contain the character \<^verbatim>\<open>U+0000\<close> and whose UTF-8
  encoding has at most 260 bytes, header integers and metadata values in \<open>[0, 2^32)\<close>,
  and as many metadata values as entries. Then \<^verbatim>\<open>pack_entries\<close> returns a buffer, and
  \<^verbatim>\<open>parse_entries\<close> on that buffer returns the record with the same magic, version and
  flags, with the number of entries as count, and with the same entries and the same
  metadata in the same order.
\<close>

theorem parse_pack_roundtrip:
  assumes hdr: "u32 m" "u32 v" "u32 f"
    and n: "u32 (int (length es))"
    and ents: "\<forall>e\<in>set es. valid_str e \<and> 0 \<notin> set e \<and>
                 (\<exists>enc. utf8_encode e = Inr enc \<and> length enc \<le> 260)"
    and md: "length md = length es" "\<forall>x\<in>set md. u32 x"
  shows "\<exists>buf. pack_entries es (m, v, f) (Some md) = Inr buf \<and>
           parse_entries buf =
             Inr \<lparr>header = \<lparr>magic = m, version = v, flags = f, count = int (length es)\<rparr>,
                  entries = es, metadata = md\<rparr>"
proof -
  have ok: "list_all entry_ok es"
    using ents entries_ok_iff [of es] by blast
  have mdok: "list_all u32 md" using md(2) by (simp add: list_all_iff)
  have pack: "pack_entries es (m, v, f) (Some md) = Inr (layout es (m, v, f) md)"
    unfolding pack_entries_Inr_iff using hdr n ok md(1) mdok
    by (simp add: resolve_metadata_def)
  have "utf8_decode_replace (split_nul (slot_of e)) = e" if "e \<in> set es" for e
    using ents that decode_slot by blast
  then have "map (\<lambda>e. utf8_decode_replace (split_nul (slot_of e))) es = es"
    by (simp add: map_idI)
  with parse_layout [OF hdr n ok md(1) mdok]
  have "parse_entries (layout es (m, v, f) md) =
     Inr \<lparr>header = \<lparr>magic = m, version = v, flags = f, count = int (length es)\<rparr>,
          entries = es, metadata = md\<rparr>"
    by simp
  with pack show ?thesis by blast
qed

theorem parse_pack_roundtrip_witness:
  "u32 2008 \<and> u32 1 \<and> u32 7 \<and> u32 (int (length [[97], [98, 98 :: nat]])) \<and>
   valid_str [97] \<and> valid_str [98, 98] \<and> 0 \<notin> set [97 :: nat] \<and> 0 \<notin> set [98, 98 :: nat] \<and>
   utf8_encode [97] = Inr [97] \<and> utf8_encode [98, 98] = Inr [98, 98] \<and>
   length [3, 4 :: int] = length [[97], [98, 98 :: nat]] \<and> u32 3 \<and> u32 4 \<and>
   pack_entries [[97], [98, 98]] (2008, 1, 7) (Some [3, 4]) = Inr example_buffer \<and>
   parse_entries example_buffer =
     Inr \<lparr>header = \<lparr>magic = 2008, version = 1, flags = 7, count = 2\<rparr>,
          entries = [[97], [98, 98]], metadata = [3, 4]\<rparr>"
proof -
  have e: "utf8_encode [97] = Inr [97]" "utf8_encode [98, 98] = Inr [98, 98]"
    by (simp_all add: utf8_encode_def encode_cp_def is_surrogate_def)
  have pre: "u32 2008" "u32 1" "u32 7" "u32 (int (length [[97], [98, 98 :: nat]]))"
    "valid_str [97]" "valid_str [98, 98]" "u32 3" "u32 4"
    by (simp_all add: u32_def valid_str_def)
  have "\<exists>buf. pack_entries [[97], [98, 98]] (2008, 1, 7) (Some [3, 4]) = Inr buf \<and>
           parse_entries buf =
             Inr \<lparr>header = \<lparr>magic = 2008, version = 1, flags = 7,
                              count = int (length [[97], [98, 98 :: nat]])\<rparr>,
                  entries = [[97], [98, 98]], metadata = [3, 4]\<rparr>"
    by (rule parse_pack_roundtrip) (simp_all add: pre e u32_def)
  then have "parse_entries example_buffer =
     Inr \<lparr>header = \<lparr>magic = 2008, version = 1, flags = 7, count = 2\<rparr>,
          entries = [[97], [98, 98]], metadata = [3, 4]\<rparr>"
    unfolding pack_example by simp
  then show ?thesis using pre e pack_example by simp
qed

subsection \<open>C2: when the decoder fails\<close>

text \<open>
  Claim C2. \<^verbatim>\<open>parse_entries\<close> fails with \<open>TruncatedHeader\<close> exactly when the buffer
  is shorter than 16 bytes. Otherwise, with the count read as the little-endian integer
  at offset 12, it fails with \<open>SizeMismatch\<close> exactly when the length of the buffer is
  not \<open>16 + count * 260 + count * 4\<close>, and the error carries the actual and the expected
  size. On every other buffer it returns a record, whatever the bytes are. A failure
  is a value on the left of the sum and carries no record.
\<close>

theorem parse_entries_failure_conditions:
  "(parse_entries data = Inl TruncatedHeader \<longleftrightarrow> length data < 16) \<and>
   (let cnt = from_bytes_le (take 4 (drop 12 data));
        expected = 16 + cnt * 260 + cnt * 4
    in ((\<exists>a e. parse_entries data = Inl (SizeMismatch a e))
          \<longleftrightarrow> 16 \<le> length data \<and> length data \<noteq> expected) \<and>
       (16 \<le> length data \<and> length data \<noteq> expected
          \<longrightarrow> parse_entries data = Inl (SizeMismatch (length data) expected)) \<and>
       (16 \<le> length data \<and> length data = expected
          \<longrightarrow> (\<exists>r. parse_entries data = Inr r)))"
proof -
  have ex: "expected_size data =
      16 + from_bytes_le (take 4 (drop 12 data)) * 260 + from_bytes_le (take 4 (drop 12 data)) * 4"
    by (simp add: expected_size_def declared_count_def ENTRY_SIZE_def)
  consider (short) "length data < 16"
    | (wrong) "16 \<le> length data" "length data \<noteq> expected_size data"
    | (sized) "16 \<le> length data" "length data = expected_size data"
    by linarith
  then have "(parse_entries data = Inl TruncatedHeader \<longleftrightarrow> length data < 16) \<and>
    ((\<exists>a e. parse_entries data = Inl (SizeMismatch a e))
          \<longleftrightarrow> 16 \<le> length data \<and> length data \<noteq> expected_size data) \<and>
       (16 \<le> length data \<and> length data \<noteq> expected_size data
          \<longrightarrow> parse_entries data = Inl (SizeMismatch (length data) (expected_size data))) \<and>
       (16 \<le> length data \<and> length data = expected_size data
          \<longrightarrow> (\<exists>r. parse_entries data = Inr r))"
  proof cases
    case short
    then show ?thesis by (simp add: parse_entries_truncated)
  next
    case wrong
    then show ?thesis by (simp add: parse_entries_mismatch)
  next
    case sized
    then show ?thesis by (simp add: parse_entries_sized)
  qed
  then show ?thesis unfolding ex Let_def .
qed

theorem parse_entries_failure_conditions_witness:
  "parse_entries [1, 2, 3] = Inl TruncatedHeader \<and>
   parse_entries ([1, 0, 0, 0, 2, 0, 0, 0, 3, 0, 0, 0, 3, 0, 0, 0] @ replicate 528 0)
     = Inl (SizeMismatch 544 808) \<and>
   parse_entries lossy_buffer
     = Inr \<lparr>header = \<lparr>magic = 1, version = 2, flags = 3, count = 1\<rparr>,
            entries = [[0x61, 0xFFFD, 0x62]], metadata = [9]\<rparr>"
proof -
  let ?short = "[1, 0, 0, 0, 2, 0, 0, 0, 3, 0, 0, 0, 3, 0, 0, 0] @ replicate 528 (0 :: byte)"
  have c3: "from_bytes_le (take 4 (drop 12 ?short)) = 3" by simp
  have c1: "from_bytes_le (take 4 (drop 12 lossy_buffer)) = 1"
    by (simp add: lossy_buffer_def)
  have len: "length lossy_buffer = 280" by (simp add: lossy_buffer_def)
  from parse_entries_failure_conditions [of lossy_buffer]
  obtain r where r: "parse_entries lossy_buffer = Inr r"
    unfolding Let_def c1 len by auto
  have "parse_entries lossy_buffer
     = Inr \<lparr>header = \<lparr>magic = 1, version = 2, flags = 3, count = 1\<rparr>,
            entries = [[0x61, 0xFFFD, 0x62]], metadata = [9]\<rparr>"
    by (simp add: lossy_buffer_def parse_entries_def Let_def ENTRY_SIZE_def range4_def
        split_nul_def utf8_decode_replace_def REPLACEMENT_def)
  then show ?thesis
    using parse_entries_failure_conditions [of "[1, 2, 3]"]
      parse_entries_failure_conditions [of ?short]
    unfolding Let_def c3 by simp
qed

subsection \<open>C3: an empty entry list\<close>

text \<open>
  Claim C3 says that the encoder refuses an empty entry list with \<open>EmptyInput\<close>.
  \<^verbatim>\<open>pack_entries\<close> does not: on an empty list and the default header it returns the
  sixteen header bytes with a count of zero.
\<close>

theorem pack_entries_empty_counterexample:
  "pack_entries [] (2008, 1, 7) None = Inr [216, 7, 0, 0, 1, 0, 0, 0, 7, 0, 0, 0, 0, 0, 0, 0]"
  by (simp add: pack_entries_def to_bytes4_def)

text \<open>
  Claim C3, amended. The empty entry list is refused by \<^verbatim>\<open>load_entries\<close>, which
  fails with \<open>EmptyInput\<close>, so that \<^verbatim>\<open>main\<close> never packs an empty list.
  \<^verbatim>\<open>pack_entries\<close> itself never fails with \<open>EmptyInput\<close>; on an empty entry list,
  with header integers in the unsigned 32-bit range and metadata absent or empty, it
  returns the three header integers followed by a count of zero.
\<close>

theorem empty_input_rejected_by_loader:
  "load_entries_check [] meta = Inl EmptyInput \<and>
   pack_main [] meta hdr = Inl EmptyInput \<and>
   pack_entries es hdr meta \<noteq> Inl EmptyInput \<and>
   (u32 m \<and> u32 v \<and> u32 f \<and> (meta = None \<or> meta = Some [])
      \<longrightarrow> pack_entries [] (m, v, f) meta = Inr (le4 m @ le4 v @ le4 f @ [0, 0, 0, 0]))"
proof -
  have a: "load_entries_check [] meta = Inl EmptyInput"
    by (simp add: load_entries_check_def)
  then have b: "pack_main [] meta hdr = Inl EmptyInput"
    by (simp add: pack_main_def)
  have body: "pack_body acc xs \<noteq> Inl EmptyInput" for acc xs
  proof (induction xs arbitrary: acc)
    case Nil
    then show ?case by simp
  next
    case (Cons x xs)
    have "utf8_encode_nat s \<noteq> Inl EmptyInput" for s
      by (induction s) (auto split: sum.splits)
    then have "utf8_encode x \<noteq> Inl EmptyInput"
      by (auto simp: utf8_encode_def split: sum.splits)
    with Cons.IH show ?case by (auto split: sum.splits)
  qed
  have c: "pack_entries es hdr meta \<noteq> Inl EmptyInput"
  proof
    assume e: "pack_entries es hdr meta = Inl EmptyInput"
    obtain h0 h1 h2 where hdr: "hdr = (h0, h1, h2)" by (cases hdr)
    from e show False
      unfolding pack_entries_def hdr
      using body [of "[]" es]
      by (auto simp: Let_def simp del: join_to_bytes.simps
          split: sum.splits if_splits dest!: join_to_bytes_Inl to_bytes4_Inl)
  qed
  have d: "pack_entries [] (m, v, f) meta = Inr (le4 m @ le4 v @ le4 f @ [0, 0, 0, 0])"
    if "u32 m \<and> u32 v \<and> u32 f \<and> (meta = None \<or> meta = Some [])"
  proof -
    have "le4 (int 0) = [0, 0, 0, 0]" by (simp add: le4_def)
    with that show ?thesis
      by (auto simp: pack_entries_Inr_iff layout_def resolve_metadata_def u32_def)
  qed
  from a b c d show ?thesis by blast
qed

theorem empty_input_rejected_by_loader_witness:
  "load_entries_check [] None = Inl EmptyInput \<and>
   pack_main [] None (2008, 1, 7) = Inl EmptyInput \<and>
   pack_entries [] (2008, 1, 7) None \<noteq> Inl EmptyInput \<and>
   u32 2008 \<and> u32 1 \<and> u32 7 \<and>
   pack_entries [] (2008, 1, 7) None = Inr (le4 2008 @ le4 1 @ le4 7 @ [0, 0, 0, 0])"
  using empty_input_rejected_by_loader [of None "(2008, 1, 7)" "[]" 2008 1 7]
  by (simp add: u32_def)

subsection \<open>C4: the length of an entry\<close>

text \<open>
  Claim C4 says that an entry whose encoding exceeds 260 bytes makes \<^verbatim>\<open>pack_entries\<close>
  fail with an error that reports the index of the entry and its encoded length. The
  error carries the encoded length and the text of the entry, not its index: the same
  too long entry at index 0 and at index 1 gives the same error. And when a header
  integer is out of range the failure is the \<^verbatim>\<open>OverflowError\<close> of the header, which
  is written first.
\<close>

theorem entry_too_long_index_counterexample:
  "utf8_encode (replicate 261 97) = Inr (replicate 261 97) \<and>
   pack_entries [replicate 261 97] (2008, 1, 7) None
     = Inl (EntryTooLong 261 (replicate 261 97)) \<and>
   pack_entries [[98], replicate 261 97] (2008, 1, 7) None
     = Inl (EntryTooLong 261 (replicate 261 97)) \<and>
   pack_entries [replicate 261 97] (- 1, 1, 7) None = Inl OverflowError"
proof -
  have b: "utf8_encode [98] = Inr [98]"
    by (simp add: utf8_encode_def encode_cp_def is_surrogate_def)
  have b1: "pack_body [] [replicate 261 97] = Inl (EntryTooLong 261 (replicate 261 97))"
    by (simp add: utf8_encode_replicate_a ENTRY_SIZE_def)
  have b2: "pack_body [] [[98], replicate 261 97] = Inl (EntryTooLong 261 (replicate 261 97))"
    by (simp add: utf8_encode_replicate_a b ENTRY_SIZE_def)
  have "pack_entries [replicate 261 97] (2008, 1, 7) None
     = Inl (EntryTooLong 261 (replicate 261 97))"
    by (rule pack_entries_body_error [OF _ _ _ _ b1]) (simp_all add: u32_def)
  moreover have "pack_entries [[98], replicate 261 97] (2008, 1, 7) None
     = Inl (EntryTooLong 261 (replicate 261 97))"
    by (rule pack_entries_body_error [OF _ _ _ _ b2]) (simp_all add: u32_def)
  moreover have "pack_entries [replicate 261 97] (- 1, 1, 7) None = Inl OverflowError"
    by (simp add: pack_entries_def to_bytes4_def)
  ultimately show ?thesis by (simp add: utf8_encode_replicate_a)
qed

text \<open>
  Claim C4, amended. Let the header integers and the number of entries fit 32 bits, and
  let every entry before the entry \<open>e\<close> encode to at most 260 bytes. If the UTF-8 encoding
  of \<open>e\<close> has more than 260 bytes, \<^verbatim>\<open>pack_entries\<close> fails with \<open>EntryTooLong\<close>, which
  carries the encoded length and the entry itself. If it has at most 260 bytes, exactly
  260 included, and the later entries and the metadata are accepted too, then
  \<^verbatim>\<open>pack_entries\<close> returns a buffer in which the slot of \<open>e\<close> is its encoding followed
  by zero bytes up to 260 bytes.
\<close>

theorem pack_entries_entry_length:
  assumes hdr: "u32 m" "u32 v" "u32 f"
    and n: "u32 (int (length (pre @ e # post)))"
    and pre: "\<forall>p\<in>set pre. \<exists>enc. utf8_encode p = Inr enc \<and> length enc \<le> 260"
    and enc: "utf8_encode e = Inr enc"
  shows "(260 < length enc \<longrightarrow>
            pack_entries (pre @ e # post) (m, v, f) meta = Inl (EntryTooLong (length enc) e)) \<and>
         (length enc \<le> 260 \<and>
          (\<forall>p\<in>set post. \<exists>enc. utf8_encode p = Inr enc \<and> length enc \<le> 260) \<and>
          (meta = None \<or>
           (\<exists>md. meta = Some md \<and> length md = length (pre @ e # post) \<and> list_all u32 md))
          \<longrightarrow>
            (\<exists>buf. pack_entries (pre @ e # post) (m, v, f) meta = Inr buf \<and>
                   take 260 (drop (16 + 260 * length pre) buf)
                     = enc @ replicate (260 - length enc) 0))"
proof (intro conjI impI)
  assume long: "260 < length enc"
  have preok: "list_all entry_ok pre" using pre entries_ok_iff [of pre] by blast
  have body: "pack_body [] (pre @ e # post) = Inl (EntryTooLong (length enc) e)"
    using preok enc long by (intro pack_body_too_long) (simp_all add: ENTRY_SIZE_def)
  with hdr n
  show "pack_entries (pre @ e # post) (m, v, f) meta = Inl (EntryTooLong (length enc) e)"
    by (rule pack_entries_body_error)
next
  assume a: "length enc \<le> 260 \<and>
          (\<forall>p\<in>set post. \<exists>enc. utf8_encode p = Inr enc \<and> length enc \<le> 260) \<and>
          (meta = None \<or>
           (\<exists>md. meta = Some md \<and> length md = length (pre @ e # post) \<and> list_all u32 md))"
  let ?es = "pre @ e # post"
  have "\<forall>p\<in>set ?es. \<exists>enc. utf8_encode p = Inr enc \<and> length enc \<le> 260"
    using pre enc a by auto
  then have ok: "list_all entry_ok ?es" using entries_ok_iff [of ?es] by blast
  define md where "md = resolve_metadata meta (length ?es)"
  from a have mdok: "length md = length ?es \<and> list_all u32 md"
    unfolding md_def by (rule resolve_metadata_ok [OF conjunct2 [OF conjunct2]])
  have pack: "pack_entries ?es (m, v, f) meta = Inr (layout ?es (m, v, f) md)"
    unfolding pack_entries_Inr_iff md_def [symmetric] using hdr n ok mdok by simp
  have "take 260 (drop (16 + 260 * length pre) (layout ?es (m, v, f) md))
          = slot_of (?es ! length pre)"
    using ok by (rule slot_at) simp
  also have "\<dots> = enc @ replicate (260 - length enc) 0"
    using enc by (simp add: slot_of_def ljust_def ENTRY_SIZE_def)
  finally show "\<exists>buf. pack_entries ?es (m, v, f) meta = Inr buf \<and>
                   take 260 (drop (16 + 260 * length pre) buf)
                     = enc @ replicate (260 - length enc) 0"
    using pack by blast
qed

theorem pack_entries_entry_length_witness:
  "u32 2008 \<and> u32 1 \<and> u32 7 \<and> u32 (int (length ([[98 :: nat]] @ replicate 261 97 # []))) \<and>
   utf8_encode [98] = Inr [98] \<and>
   utf8_encode (replicate 261 97) = Inr (replicate 261 97) \<and>
   utf8_encode (replicate 260 97) = Inr (replicate 260 97) \<and>
   pack_entries [[98], replicate 261 97] (2008, 1, 7) None
     = Inl (EntryTooLong 261 (replicate 261 97)) \<and>
   (\<exists>buf. pack_entries [[98], replicate 260 97] (2008, 1, 7) None = Inr buf \<and>
          take 260 (drop 276 buf) = replicate 260 97)"
proof -
  have pre: "u32 2008" "u32 1" "u32 7" "u32 (int (length ([[98 :: nat]] @ replicate 261 97 # [])))"
    "u32 (int (length ([[98 :: nat]] @ replicate 260 97 # [])))"
    by (simp_all add: u32_def)
  have b: "utf8_encode [98] = Inr [98]"
    by (simp add: utf8_encode_def encode_cp_def is_surrogate_def)
  then have bs: "\<forall>p\<in>set [[98]]. \<exists>enc. utf8_encode p = Inr enc \<and> length enc \<le> 260"
    by simp
  note long = pack_entries_entry_length
    [OF pre(1-4) bs utf8_encode_replicate_a [of 261], where meta = None]
  note full = pack_entries_entry_length
    [OF pre(1-3) pre(5) bs utf8_encode_replicate_a [of 260], where meta = None]
  show ?thesis
    using long full pre b utf8_encode_replicate_a [of 261] utf8_encode_replicate_a [of 260]
    by simp
qed

subsection \<open>C5: the size law\<close>



subsection \<open>C6: the count is derived from the entries\<close>



subsection \<open>C7: the metadata\<close>

text \<open>
  Claim C7 says that metadata of the wrong length makes \<^verbatim>\<open>pack_entries\<close> fail with
  \<open>MetadataCountMismatch\<close>. The metadata is looked at after the header and the entries:
  with a too long entry, or a header integer out of range, the failure is the earlier
  one.
\<close>

theorem metadata_mismatch_order_counterexample:
  "utf8_encode (replicate 261 97) = Inr (replicate 261 97) \<and>
   length ([] :: int list) \<noteq> length [replicate 261 (97 :: nat)] \<and>
   pack_entries [replicate 261 97] (2008, 1, 7) (Some [])
     = Inl (EntryTooLong 261 (replicate 261 97)) \<and>
   pack_entries [[98]] (- 1, 1, 7) (Some []) = Inl OverflowError"
proof -
  have b1: "pack_body [] [replicate 261 97] = Inl (EntryTooLong 261 (replicate 261 97))"
    by (simp add: utf8_encode_replicate_a ENTRY_SIZE_def)
  have "pack_entries [replicate 261 97] (2008, 1, 7) (Some [])
     = Inl (EntryTooLong 261 (replicate 261 97))"
    by (rule pack_entries_body_error [OF _ _ _ _ b1]) (simp_all add: u32_def)
  moreover have "pack_entries [[98]] (- 1, 1, 7) (Some []) = Inl OverflowError"
    by (simp add: pack_entries_def to_bytes4_def)
  ultimately show ?thesis by (simp add: utf8_encode_replicate_a)
qed

text \<open>
  Claim C7, amended. Let the header integers and the number of entries fit 32 bits and
  let every entry encode to at most 260 bytes. Absent metadata is replaced by as many
  zeros as there are entries, and the trailer of the returned buffer is four zero bytes
  for each entry. Metadata whose length differs from the number of entries makes
  \<^verbatim>\<open>pack_entries\<close> fail with \<open>MetadataCountMismatch\<close>, which carries the supplied and
  the expected count. Metadata of the right length with all values in \<open>[0, 2^32)\<close> is
  written as the trailer, each value as four little-endian bytes, in order.
\<close>

theorem pack_entries_metadata_resolution:
  assumes hdr: "u32 m" "u32 v" "u32 f"
    and n: "u32 (int (length es))"
    and ents: "\<forall>e\<in>set es. \<exists>enc. utf8_encode e = Inr enc \<and> length enc \<le> 260"
  shows "pack_entries es (m, v, f) None
           = pack_entries es (m, v, f) (Some (replicate (length es) 0)) \<and>
         (\<exists>buf. pack_entries es (m, v, f) None = Inr buf \<and>
                drop (16 + 260 * length es) buf = replicate (4 * length es) 0) \<and>
         (length md \<noteq> length es \<longrightarrow>
            pack_entries es (m, v, f) (Some md)
              = Inl (MetadataCountMismatch (length md) (length es))) \<and>
         (length md = length es \<and> (\<forall>x\<in>set md. u32 x) \<longrightarrow>
            (\<exists>buf. pack_entries es (m, v, f) (Some md) = Inr buf \<and>
                   join_to_bytes md = Inr (drop (16 + 260 * length es) buf)))"
proof -
  have ok: "list_all entry_ok es" using ents entries_ok_iff [of es] by blast
  have hb: "join_to_bytes [m, v, f] = Inr (concat (map le4 [m, v, f]))"
    by (rule join_to_bytes_ok) (simp add: hdr)
  have cb: "to_bytes4 (int (length es)) = Inr (le4 (int (length es)))"
    using n by (rule to_bytes4_le4)
  have body: "pack_body [] es = Inr (concat (map slot_of es))"
    using pack_body_ok [OF ok, of "[]"] by simp
  have a: "pack_entries es (m, v, f) None
           = pack_entries es (m, v, f) (Some (replicate (length es) 0))"
    unfolding pack_entries_def by (simp add: hb cb body del: join_to_bytes.simps)
  have z: "list_all u32 (replicate (length es) 0)" by (simp add: list_all_iff u32_def)
  have "pack_entries es (m, v, f) None = Inr (layout es (m, v, f) (replicate (length es) 0))"
    unfolding pack_entries_Inr_iff using hdr n ok z by (simp add: resolve_metadata_def)
  moreover have "drop (16 + 260 * length es) (layout es (m, v, f) (replicate (length es) 0))
      = replicate (4 * length es) 0"
    unfolding trailer_of_layout [OF ok] by (rule join_zeros)
  ultimately have b: "\<exists>buf. pack_entries es (m, v, f) None = Inr buf \<and>
                drop (16 + 260 * length es) buf = replicate (4 * length es) 0"
    by blast
  have c: "pack_entries es (m, v, f) (Some md)
              = Inl (MetadataCountMismatch (length md) (length es))"
    if "length md \<noteq> length es"
    unfolding pack_entries_def using that
    by (simp add: hb cb body del: join_to_bytes.simps)
  have d: "\<exists>buf. pack_entries es (m, v, f) (Some md) = Inr buf \<and>
                   join_to_bytes md = Inr (drop (16 + 260 * length es) buf)"
    if "length md = length es \<and> (\<forall>x\<in>set md. u32 x)"
  proof -
    from that have mdok: "list_all u32 md" by (simp add: list_all_iff)
    have "pack_entries es (m, v, f) (Some md) = Inr (layout es (m, v, f) md)"
      unfolding pack_entries_Inr_iff using hdr n ok mdok that
      by (simp add: resolve_metadata_def)
    moreover have "join_to_bytes md = Inr (drop (16 + 260 * length es) (layout es (m, v, f) md))"
      unfolding trailer_of_layout [OF ok] using mdok by (rule join_to_bytes_ok)
    ultimately show ?thesis by blast
  qed
  from a b c d show ?thesis by blast
qed

theorem pack_entries_metadata_resolution_witness:
  "u32 2008 \<and> u32 1 \<and> u32 7 \<and> u32 (int (length [[97], [98, 98 :: nat]])) \<and>
   utf8_encode [97] = Inr [97] \<and> utf8_encode [98, 98] = Inr [98, 98] \<and>
   (\<exists>buf. pack_entries [[97], [98, 98]] (2008, 1, 7) None = Inr buf \<and>
          drop 536 buf = replicate 8 0) \<and>
   pack_entries [[97], [98, 98]] (2008, 1, 7) (Some [3])
     = Inl (MetadataCountMismatch 1 2) \<and>
   u32 3 \<and> u32 4 \<and>
   pack_entries [[97], [98, 98]] (2008, 1, 7) (Some [3, 4]) = Inr example_buffer \<and>
   join_to_bytes [3, 4] = Inr (drop 536 example_buffer)"
proof -
  have e: "utf8_encode [97] = Inr [97]" "utf8_encode [98, 98] = Inr [98, 98]"
    by (simp_all add: utf8_encode_def encode_cp_def is_surrogate_def)
  have pre: "u32 2008" "u32 1" "u32 7" "u32 (int (length [[97], [98, 98 :: nat]]))"
    "u32 3" "u32 4"
    by (simp_all add: u32_def)
  have ents: "\<forall>e\<in>set [[97], [98, 98]]. \<exists>enc. utf8_encode e = Inr enc \<and> length enc \<le> 260"
    using e by simp
  note none = pack_entries_metadata_resolution [OF pre(1-4) ents, of "[3]", THEN conjunct2]
  note some = pack_entries_metadata_resolution [OF pre(1-4) ents, of "[3, 4]"]
  from some pre have "\<exists>buf. pack_entries [[97], [98, 98]] (2008, 1, 7) (Some [3, 4]) = Inr buf \<and>
                   join_to_bytes [3, 4] = Inr (drop 536 buf)"
    by simp
  then have j: "join_to_bytes [3, 4] = Inr (drop 536 example_buffer)"
    unfolding pack_example by simp
  from none have "(\<exists>buf. pack_entries [[97], [98, 98]] (2008, 1, 7) None = Inr buf \<and>
          drop 536 buf = replicate 8 0) \<and>
      pack_entries [[97], [98, 98]] (2008, 1, 7) (Some [3]) = Inl (MetadataCountMismatch 1 2)"
    by simp
  with j pre e pack_example show ?thesis by simp
qed

subsection \<open>C8: the concrete scenario\<close>

text \<open>
  Claim C8 says that packing \<^verbatim>\<open>["a", "bb"]\<close> with header \<open>(2008, 1, 7)\<close> and no metadata
  returns 552 bytes. It returns \<open>16 + 2 * 260 + 2 * 4 = 544\<close> bytes.
\<close>

theorem scenario_size_counterexample:
  "pack_entries [str_of ''a'', str_of ''bb''] (2008, 1, 7) None = Inr scenario_buffer \<and>
   length scenario_buffer = 544 \<and> length scenario_buffer \<noteq> 552"
  using pack_scenario by (simp add: scenario_buffer_def eight_zeros)

text \<open>
  Claim C8, amended. Packing \<^verbatim>\<open>["a", "bb"]\<close> with header \<open>(2008, 1, 7)\<close> and no metadata
  returns a buffer of 544 bytes. Its first sixteen bytes are
  \<^verbatim>\<open>D8 07 00 00 01 00 00 00 07 00 00 00 02 00 00 00\<close>, its first slot is the byte of
  \<^verbatim>\<open>"a"\<close> followed by 259 zero bytes, and its last eight bytes are zero.
  \<^verbatim>\<open>parse_entries\<close> on it returns the header with magic 2008, version 1, flags 7 and
  count 2, the entries \<^verbatim>\<open>["a", "bb"]\<close> and the metadata \<open>[0, 0]\<close>.
\<close>

theorem concrete_scenario:
  "pack_entries [str_of ''a'', str_of ''bb''] (2008, 1, 7) None = Inr scenario_buffer \<and>
   length scenario_buffer = 544 \<and>
   take 16 scenario_buffer
     = [0xD8, 0x07, 0x00, 0x00, 0x01, 0x00, 0x00, 0x00,
        0x07, 0x00, 0x00, 0x00, 0x02, 0x00, 0x00, 0x00] \<and>
   take 260 (drop 16 scenario_buffer) = 97 # replicate 259 0 \<and>
   drop (544 - 8) scenario_buffer = replicate 8 0 \<and>
   parse_entries scenario_buffer =
     Inr \<lparr>header = \<lparr>magic = 2008, version = 1, flags = 7, count = 2\<rparr>,
          entries = [str_of ''a'', str_of ''bb''], metadata = [0, 0]\<rparr>"
  using pack_scenario parse_scenario by (simp add: scenario_buffer_def eight_zeros)

subsection \<open>C9: values outside the unsigned 32-bit range\<close>

text \<open>
  Claim C9. \<^verbatim>\<open>pack_entries\<close> fails, and returns no buffer, whenever one of the three
  header integers or one of the metadata values is negative or at least \<open>2^32\<close>. For a
  header integer the failure is the \<^verbatim>\<open>OverflowError\<close> of the four-byte conversion.
\<close>

theorem pack_entries_u32_range:
  assumes "\<not> u32 m \<or> \<not> u32 v \<or> \<not> u32 f
           \<or> (\<exists>md. meta = Some md \<and> (\<exists>x\<in>set md. \<not> u32 x))"
  shows "(\<exists>e. pack_entries es (m, v, f) meta = Inl e) \<and>
         (\<not> u32 m \<or> \<not> u32 v \<or> \<not> u32 f
            \<longrightarrow> pack_entries es (m, v, f) meta = Inl OverflowError)"
proof
  show "\<exists>e. pack_entries es (m, v, f) meta = Inl e"
  proof (cases "pack_entries es (m, v, f) meta")
    case (Inl e)
    then show ?thesis by blast
  next
    case (Inr buf)
    then have h: "u32 m" "u32 v" "u32 f"
      and md: "list_all u32 (resolve_metadata meta (length es))"
      unfolding pack_entries_Inr_iff by simp_all
    from assms h obtain md' x where "meta = Some md'" "x \<in> set md'" "\<not> u32 x" by blast
    with md have False by (simp add: resolve_metadata_def list_all_iff)
    then show ?thesis ..
  qed
next
  show "\<not> u32 m \<or> \<not> u32 v \<or> \<not> u32 f
          \<longrightarrow> pack_entries es (m, v, f) meta = Inl OverflowError"
  proof
    assume "\<not> u32 m \<or> \<not> u32 v \<or> \<not> u32 f"
    then have "\<not> list_all u32 [m, v, f]" by simp
    then have "join_to_bytes [m, v, f] = Inl OverflowError" by (rule join_to_bytes_bad)
    then show "pack_entries es (m, v, f) meta = Inl OverflowError"
      unfolding pack_entries_def by (simp del: join_to_bytes.simps)
  qed
qed

theorem pack_entries_u32_range_witness:
  "\<not> u32 (- 1) \<and> \<not> u32 4294967296 \<and>
   pack_entries [[97]] (- 1, 1, 7) None = Inl OverflowError \<and>
   (\<exists>e. pack_entries [[97]] (2008, 1, 7) (Some [4294967296]) = Inl e)"
  using pack_entries_u32_range [of "- 1" 1 7 None "[[97]]"]
    pack_entries_u32_range [of 2008 1 7 "Some [4294967296]" "[[97]]"]
  by (simp add: u32_def)

subsection \<open>C10: what the decoder returns\<close>

text \<open>
  Claim C10. Every record that \<^verbatim>\<open>parse_entries\<close> returns has as many entries as
  metadata values, that number is its header's count, and its four header fields and
  all its metadata values lie in \<open>[0, 2^32)\<close>.
\<close>

theorem parse_entries_output_invariant:
  assumes "parse_entries data = Inr r"
  shows "length (entries r) = length (metadata r) \<and>
         int (length (entries r)) = count (header r) \<and>
         u32 (magic (header r)) \<and> u32 (version (header r)) \<and>
         u32 (flags (header r)) \<and> u32 (count (header r)) \<and>
         (\<forall>x\<in>set (metadata r). u32 x)"
proof -
  note sz = parse_entries_Inr [OF assms]
  from assms have r: "r = \<lparr>header = \<lparr>magic = int (from_bytes_le (take 4 data)),
                      version = int (from_bytes_le (take 4 (drop 4 data))),
                      flags = int (from_bytes_le (take 4 (drop 8 data))),
                      count = int (declared_count data)\<rparr>,
          entries = map (\<lambda>idx. utf8_decode_replace
                            (split_nul (take ENTRY_SIZE (drop (16 + idx * ENTRY_SIZE) data))))
                        [0..<declared_count data],
          metadata = map (\<lambda>i. int (from_bytes_le
                            (take 4 (drop i (drop (16 + declared_count data * ENTRY_SIZE) data)))))
                         (range4 (declared_count data * 4))\<rparr>"
    unfolding parse_entries_sized [OF sz] by simp
  have c: "u32 (int (declared_count data))"
    unfolding declared_count_def by (rule u32_from_bytes_le_take4)
  show ?thesis
    unfolding r using c by (auto simp: u32_from_bytes_le_take4 range4_mult)
qed

theorem parse_entries_output_invariant_witness:
  "parse_entries example_buffer =
     Inr \<lparr>header = \<lparr>magic = 2008, version = 1, flags = 7, count = 2\<rparr>,
          entries = [[97], [98, 98]], metadata = [3, 4]\<rparr> \<and>
   length [[97], [98, 98 :: nat]] = length [3, 4 :: int] \<and>
   int (length [[97], [98, 98 :: nat]]) = 2 \<and>
   u32 2008 \<and> u32 1 \<and> u32 7 \<and> u32 2 \<and> u32 3 \<and> u32 4"
  using parse_entries_output_invariant [OF parse_example] parse_example by simp

end
